theory Spec2Isabelle
  imports Main "HOL-Library.Sublist"
begin

text \<open>
  A model of \<open>tools/recon/amass/enum/names.go\<close>: the name filter \<open>fqdnFilter\<close> with
  its reconciliation goroutine \<open>processDupNames\<close>, and \<open>subdomainTask\<close> with its
  counter goroutine \<open>timesManager\<close> and its drain \<open>OutputRequests\<close>. State is passed
  explicitly, each goroutine is the function of its sequence of events, and what the
  file takes from outside (scope and validity tests, trust tiers, the graph, the data
  sources, the hash of the Bloom filter) is a parameter.
\<close>

section \<open>Machine integers\<close>

text \<open>
  Go's \<open>int\<close> is taken at its 64-bit width (amd64, arm64). A value of that type is an
  \<open>int\<close> here, and every increment of the source goes through \<open>int64\<close>, which wraps
  into the two's complement range.
\<close>

definition int64 :: "int \<Rightarrow> int" where
  "int64 x = (x + 2 ^ 63) mod 2 ^ 64 - 2 ^ 63"

section \<open>Request records\<close>

text \<open>
  The three request structs of the \<open>requests\<close> package, with the fields that
  \<open>names.go\<close> reads and writes. The DNS answers are opaque to this file, so their
  type is a parameter. Field names carry a prefix, since the structs share
  \<open>Name\<close>, \<open>Domain\<close>, \<open>Tag\<close> and \<open>Source\<close>.
\<close>

record 'a DNSRequest =
  req_Name :: string
  req_Domain :: string
  req_Records :: "'a list"
  req_Tag :: string
  req_Source :: string

record 'a ResolvedRequest =
  res_Name :: string
  res_Domain :: string
  res_Records :: "'a list"
  res_Tag :: string
  res_Source :: string

record SubdomainRequest =
  sub_Name :: string
  sub_Domain :: string
  sub_Tag :: string
  sub_Source :: string
  sub_Times :: int

text \<open>
  The output queue holds \<open>interface{}\<close> values. The type switch of
  \<open>OutputRequests\<close> knows two dynamic types; \<open>Other\<close> stands for a value of any
  other type.
\<close>

datatype 'a element =
    Resolved "'a ResolvedRequest"
  | Subdomain SubdomainRequest
  | Other

section \<open>OutputRequests\<close>

text \<open>
  The queue is a FIFO: \<open>Next\<close> takes the head of a list and reports \<open>ok = false\<close>
  on the empty list. The data sources are external; a call \<open>src.Request(ctx, v.Clone())\<close>
  is recorded as the pair of the source and the queued value \<open>v\<close>. What the source is
  handed is the copy that \<open>Clone\<close> of the \<open>requests\<close> package makes of \<open>v\<close>, a method
  declared outside \<open>names.go\<close>; which fields it copies is not modelled.

  \<open>requestAll\<close> is the inner \<open>for _, src := range r.enum.srcs\<close>. Its first result
  is \<open>True\<close> when the \<open>default\<close> branch ran \<open>continue loop\<close>, which leaves the
  inner loop and skips the test \<open>count >= num\<close> of the outer one.
\<close>

fun requestAll ::
  "'s list \<Rightarrow> 'a element \<Rightarrow> int \<Rightarrow> ('s \<times> 'a element) list
    \<Rightarrow> bool \<times> int \<times> ('s \<times> 'a element) list" where
  "requestAll [] element count sent = (False, count, sent)"
| "requestAll (src # srcs) element count sent =
     (case element of
        Resolved v \<Rightarrow> requestAll srcs element (int64 (count + 1)) (sent @ [(src, Resolved v)])
      | Subdomain v \<Rightarrow> requestAll srcs element (int64 (count + 1)) (sent @ [(src, Subdomain v)])
      | Other \<Rightarrow> (True, count, sent))"

text \<open>
  \<open>drain\<close> is the outer \<open>for\<close> loop, from a given \<open>count\<close>. It returns the count,
  the queue left behind and the requests sent.
\<close>

fun drain ::
  "int \<Rightarrow> 's list \<Rightarrow> int \<Rightarrow> ('s \<times> 'a element) list \<Rightarrow> 'a element list
    \<Rightarrow> int \<times> 'a element list \<times> ('s \<times> 'a element) list" where
  "drain num srcs count sent [] = (count, [], sent)"
| "drain num srcs count sent (element # queue) =
     (case requestAll srcs element count sent of
        (True, count', sent') \<Rightarrow> drain num srcs count' sent' queue
      | (False, count', sent') \<Rightarrow>
          if count' \<ge> num then (count', queue, sent')
          else drain num srcs count' sent' queue)"

definition OutputRequests ::
  "int \<Rightarrow> 's list \<Rightarrow> 'a element list \<Rightarrow> int \<times> 'a element list \<times> ('s \<times> 'a element) list" where
  "OutputRequests num srcs queue =
     (if num \<le> 0 then (0, queue, []) else drain num srcs 0 [] queue)"

section \<open>String helpers of the Go library\<close>

text \<open>
  A Go string is a sequence of bytes, here a \<open>string\<close>. \<open>Split\<close> is
  \<open>strings.Split(s, ".")\<close>: one label more than there are dots, the empty string
  giving one empty label. \<open>Join\<close> is \<open>strings.Join(labels, ".")\<close>.
\<close>

fun Split :: "string \<Rightarrow> string list" where
  "Split [] = [[]]"
| "Split (c # cs) =
     (if c = CHR ''.'' then [] # Split cs
      else (case Split cs of [] \<Rightarrow> [[c]] | w # ws \<Rightarrow> (c # w) # ws))"

fun Join :: "string list \<Rightarrow> string" where
  "Join [] = []"
| "Join [w] = w"
| "Join (w # ws) = w @ CHR ''.'' # Join ws"

text \<open>
  \<open>strings.TrimSpace\<close> removes the leading and the trailing white-space runes, as
  \<open>unicode.IsSpace\<close> defines them. \<open>spaceRunes\<close> lists their UTF-8 encodings:
  tab, line feed, vertical tab, form feed, carriage return, space, U+0085, U+00A0,
  U+1680, U+2000 to U+200A, U+2028, U+2029, U+202F, U+205F and U+3000. Decoding from
  the left or from the right finds such a rune exactly where the bytes start or end
  with one of these encodings.
\<close>

definition spaceRunes :: "string list" where
  "spaceRunes =
     map (\<lambda>c. [c]) [CHR 0x09, CHR 0x0A, CHR 0x0B, CHR 0x0C, CHR 0x0D, CHR 0x20]
     @ [[CHR 0xC2, CHR 0x85], [CHR 0xC2, CHR 0xA0], [CHR 0xE1, CHR 0x9A, CHR 0x80]]
     @ map (\<lambda>c. [CHR 0xE2, CHR 0x80, c])
         [CHR 0x80, CHR 0x81, CHR 0x82, CHR 0x83, CHR 0x84, CHR 0x85, CHR 0x86, CHR 0x87,
          CHR 0x88, CHR 0x89, CHR 0x8A, CHR 0xA8, CHR 0xA9, CHR 0xAF]
     @ [[CHR 0xE2, CHR 0x81, CHR 0x9F], [CHR 0xE3, CHR 0x80, CHR 0x80]]"

text \<open>
  \<open>runePrefix runes s\<close> is the byte length of the first of \<open>runes\<close> that \<open>s\<close>
  starts with, and 0 when it starts with none.
\<close>

definition runePrefix :: "string list \<Rightarrow> string \<Rightarrow> nat" where
  "runePrefix runes s =
     (case filter (\<lambda>e. take (length e) s = e) runes of [] \<Rightarrow> 0 | e # _ \<Rightarrow> length e)"

fun trimRunes :: "string list \<Rightarrow> string \<Rightarrow> string" where
  "trimRunes runes [] = []"
| "trimRunes runes (c # cs) =
     (if runePrefix runes (c # cs) = 0 then c # cs
      else trimRunes runes (drop (runePrefix runes (c # cs) - 1) cs))"

definition TrimLeft :: "string \<Rightarrow> string" where
  "TrimLeft s = trimRunes spaceRunes s"

definition TrimRight :: "string \<Rightarrow> string" where
  "TrimRight s = rev (trimRunes (map rev spaceRunes) (rev s))"

definition TrimSpace :: "string \<Rightarrow> string" where
  "TrimSpace s = TrimRight (TrimLeft s)"

section \<open>The occurrence counter\<close>

text \<open>
  \<open>timesManager\<close> owns the map \<open>subdomains\<close> and serves one request at a time from
  \<open>timesChan\<close>. \<open>timesReply\<close> is the body of its \<open>case req := <-r.timesChan\<close>: the
  new map and the value sent on the reply channel (the variable \<open>times\<close> of the
  source, here \<open>ntimes\<close>). \<open>timesManager\<close> serves a sequence
  of requests in the order the channel delivers them and lists the replies.
  \<open>timesForSubdomain\<close> sends one request and returns its reply; the manager is taken
  to be running (\<open>Stop\<close> has not closed \<open>done\<close>).
\<close>

definition timesReply :: "(string \<rightharpoonup> int) \<Rightarrow> string \<Rightarrow> (string \<rightharpoonup> int) \<times> int" where
  "timesReply subdomains sub =
     (let ntimes = (case subdomains sub of Some t \<Rightarrow> int64 (t + 1) | None \<Rightarrow> 1)
      in (subdomains(sub \<mapsto> ntimes), ntimes))"

fun timesManager :: "(string \<rightharpoonup> int) \<Rightarrow> string list \<Rightarrow> int list" where
  "timesManager subdomains [] = []"
| "timesManager subdomains (sub # reqs) =
     (case timesReply subdomains sub of
        (subdomains', ntimes) \<Rightarrow> ntimes # timesManager subdomains' reqs)"

definition timesForSubdomain :: "(string \<rightharpoonup> int) \<Rightarrow> string \<Rightarrow> (string \<rightharpoonup> int) \<times> int" where
  "timesForSubdomain subdomains sub = timesReply subdomains sub"

section \<open>subdomainTask\<close>

text \<open>
  The state of a \<open>subdomainTask\<close>: its output queue, the counter map of its manager, and the
  requests handed to \<open>go pipeline.SendData(ctx, "root", subreq, tp)\<close>, in the order
  the goroutines were started. The scope test of the configuration and the CNAME test
  of the graph are external and come as parameters.
\<close>

record 'a subdomainTask =
  out_queue :: "'a element list"
  subdomains :: "string \<rightharpoonup> int"
  root_sends :: "SubdomainRequest list"

record Enumeration =
  IsDomainInScope :: "string \<Rightarrow> bool"
  IsCNAMENode :: "string \<Rightarrow> bool"

text \<open>
  \<open>pipeline.Data\<close> is an interface: a non-nil \<open>*DNSRequest\<close>, a nil one, or a value
  of another type. A returned \<open>nil\<close> interface is \<open>None\<close>.
\<close>

datatype 'a Data =
    DNSData "'a DNSRequest"
  | NilDNSData
  | OtherData

definition checkForSubdomains ::
  "Enumeration \<Rightarrow> 'a subdomainTask \<Rightarrow> 'a DNSRequest \<Rightarrow> 'a Data option \<times> 'a subdomainTask" where
  "checkForSubdomains e r req =
     (let labels = Split (req_Name req); num = int (length labels) in
      if num < 2 then (Some (DNSData req), r)
      else if num - 1 < int (length (Split (req_Domain req))) then (Some (DNSData req), r)
      else
        let sub = TrimSpace (Join (tl labels)) in
        if IsCNAMENode e sub then (Some (DNSData req), r)
        else
          (case timesForSubdomain (subdomains r) sub of
             (subdomains', ntimes) \<Rightarrow>
               let subreq = \<lparr>sub_Name = sub, sub_Domain = req_Domain req, sub_Tag = req_Tag req,
                              sub_Source = req_Source req, sub_Times = ntimes\<rparr>;
                   r' = r\<lparr>subdomains := subdomains',
                          out_queue := out_queue r @ [Subdomain subreq]\<rparr>
               in if sub \<noteq> req_Domain req \<and> ntimes = 1
                  then (Some (DNSData req), r'\<lparr>root_sends := root_sends r' @ [subreq]\<rparr>)
                  else (Some (DNSData req), r')))"

definition Process ::
  "Enumeration \<Rightarrow> 'a subdomainTask \<Rightarrow> 'a Data \<Rightarrow> 'a Data option \<times> 'a subdomainTask" where
  "Process e r data =
     (case data of
        OtherData \<Rightarrow> (Some data, r)
      | NilDNSData \<Rightarrow> (None, r)
      | DNSData req \<Rightarrow>
          if \<not> IsDomainInScope e (req_Name req) then (None, r)
          else if list_ex (\<lambda>label. label = ''_tcp'' \<or> label = ''_udp'' \<or> label = ''_tls'')
                    (Split (req_Name req))
          then (None, r)
          else checkForSubdomains e
                 (r\<lparr>out_queue := out_queue r @
                      [Resolved \<lparr>res_Name = req_Name req, res_Domain = req_Domain req,
                                 res_Records = req_Records req, res_Tag = req_Tag req,
                                 res_Source = req_Source req\<rparr>]\<rparr>)
                 req)"

section \<open>fqdnFilter\<close>

text \<open>
  Modelled from the spec: the package \<open>stringfilter\<close> (\<open>NewBloomFilter\<close>, \<open>Has\<close>,
  \<open>Duplicate\<close>) is not in \<open>names.go\<close>; the spec calls it a probabilistic set with
  insert-or-check-duplicate semantics. A Bloom filter is the set of its bits that are
  one. \<open>locations\<close> gives the bit positions of a key and is a parameter. \<open>Has\<close> tests
  the key without adding it; \<open>Duplicate\<close> tests it and adds it.
\<close>

definition NewBloomFilter :: "nat set" where
  "NewBloomFilter = {}"

definition Has :: "(string \<Rightarrow> nat list) \<Rightarrow> nat set \<Rightarrow> string \<Rightarrow> bool" where
  "Has locations bits key = list_all (\<lambda>i. i \<in> bits) (locations key)"

definition Duplicate :: "(string \<Rightarrow> nat list) \<Rightarrow> nat set \<Rightarrow> string \<Rightarrow> bool \<times> nat set" where
  "Duplicate locations bits key = (Has locations bits key, bits \<union> set (locations key))"

definition FormatBool :: "bool \<Rightarrow> string" where
  "FormatBool b = (if b then ''true'' else ''false'')"

text \<open>
  \<open>req.Valid()\<close>, \<open>requests.TrustedTag\<close> and the constant \<open>filterMaxSize\<close> are
  declared outside \<open>names.go\<close> and come as parameters, with the hash of the filter.
\<close>

record 'a filterParams =
  Valid :: "'a DNSRequest \<Rightarrow> bool"
  TrustedTag :: "string \<Rightarrow> bool"
  filterMaxSize :: int
  locations :: "string \<Rightarrow> nat list"

text \<open>
  The filter's state: the Bloom filter, the \<open>int64\<close> counter \<open>count\<close>, and the queue
  that \<open>processDupNames\<close> reads.
\<close>

record 'a fqdnFilter =
  f_filter :: "nat set"
  f_count :: int
  f_queue :: "'a DNSRequest list"

definition checkFilter ::
  "'a filterParams \<Rightarrow> 'a fqdnFilter \<Rightarrow> 'a DNSRequest \<Rightarrow> 'a DNSRequest option \<times> 'a fqdnFilter" where
  "checkFilter p f req =
     (if \<not> Valid p req then (None, f)
      else
        let f1 = (if f_count f \<ge> filterMaxSize p
                  then f\<lparr>f_count := 0, f_filter := NewBloomFilter\<rparr> else f);
            trusted = TrustedTag p (req_Tag req)
        in if \<not> trusted \<and> Has (locations p) (f_filter f1) (req_Name req @ FormatBool True)
           then (None, f1\<lparr>f_queue := f_queue f1 @ [req]\<rparr>)
           else
             (case Duplicate (locations p) (f_filter f1) (req_Name req @ FormatBool trusted) of
                (dup, bits) \<Rightarrow>
                  if dup then (None, f1\<lparr>f_filter := bits, f_queue := f_queue f1 @ [req]\<rparr>)
                  else (Some req, f1\<lparr>f_filter := bits, f_count := int64 (f_count f1 + 1)\<rparr>)))"

text \<open>
  \<open>checkAll\<close> runs \<open>checkFilter\<close> on a sequence of requests, in the order the lock
  admits them, and returns the results with the last state. \<open>noReset\<close> says that no
  call of such a run replaces the Bloom filter: each valid request finds \<open>count\<close>
  below \<open>filterMaxSize\<close>.
\<close>

fun checkAll ::
  "'a filterParams \<Rightarrow> 'a fqdnFilter \<Rightarrow> 'a DNSRequest list
    \<Rightarrow> 'a DNSRequest option list \<times> 'a fqdnFilter" where
  "checkAll p f [] = ([], f)"
| "checkAll p f (req # reqs) =
     (case checkFilter p f req of
        (out, f') \<Rightarrow> (case checkAll p f' reqs of (outs, f'') \<Rightarrow> (out # outs, f'')))"

fun noReset :: "'a filterParams \<Rightarrow> 'a fqdnFilter \<Rightarrow> 'a DNSRequest list \<Rightarrow> bool" where
  "noReset p f [] = True"
| "noReset p f (req # reqs) =
     ((\<not> Valid p req \<or> f_count f < filterMaxSize p) \<and> noReset p (snd (checkFilter p f req)) reqs)"


section \<open>processDupNames\<close>

text \<open>
  The reconciliation goroutine owns \<open>pending\<close>. Time is the monotonic clock in
  nanoseconds. The graph is external: its type and the two calls made here are
  parameters, \<open>ReadNode g name\<close> being \<open>True\<close> when \<open>ReadNode(name, "fqdn")\<close> returns
  no error. The state also lists the entries passed to \<open>InsertFQDN\<close>, in call order.
\<close>

record altsource =
  alt_Name :: string
  alt_Source :: string
  alt_Tag :: string
  alt_Timestamp :: int

record 'g Graph =
  ReadNode :: "'g \<Rightarrow> string \<Rightarrow> bool"
  InsertFQDN :: "'g \<Rightarrow> string \<Rightarrow> string \<Rightarrow> string \<Rightarrow> string \<Rightarrow> 'g"

record 'g dupNames =
  graph :: 'g
  pending :: "altsource list"
  inserted :: "altsource list"

definition Minute :: int where
  "Minute = 60 * 1000000000"

text \<open>\<open>each\<close> is the callback given to \<open>f.queue.Process\<close>, at clock reading \<open>now\<close>.\<close>

definition each :: "int \<Rightarrow> 'g dupNames \<Rightarrow> 'a DNSRequest \<Rightarrow> 'g dupNames" where
  "each now d req =
     d\<lparr>pending := pending d @
         [\<lparr>alt_Name = req_Name req, alt_Source = req_Source req, alt_Tag = req_Tag req,
           alt_Timestamp = now\<rparr>]\<rparr>"

text \<open>
  \<open>insertKnown\<close> is the statement \<open>if _, err := ReadNode(...); err == nil { InsertFQDN(...) }\<close>
  that both loops over \<open>pending\<close> share.
\<close>

definition insertKnown :: "'g Graph \<Rightarrow> string \<Rightarrow> 'g dupNames \<Rightarrow> altsource \<Rightarrow> 'g dupNames" where
  "insertKnown G uuid d a =
     (if ReadNode G (graph d) (alt_Name a)
      then d\<lparr>graph := InsertFQDN G (graph d) (alt_Name a) (alt_Source a) (alt_Tag a) uuid,
             inserted := inserted d @ [a]\<rparr>
      else d)"

text \<open>
  \<open>scanPending\<close> is the loop of the \<open>case now := <-t.C\<close> branch over the entries not
  yet visited, with its \<open>break\<close>; \<open>count\<close> is at most \<open>len(pending)\<close>, so its
  increment cannot wrap. \<open>tick\<close> is the whole branch, ending with
  \<open>pending = pending[count:]\<close>.
\<close>

fun scanPending ::
  "'g Graph \<Rightarrow> string \<Rightarrow> int \<Rightarrow> altsource list \<Rightarrow> 'g dupNames \<Rightarrow> nat \<Rightarrow> 'g dupNames \<times> nat" where
  "scanPending G uuid now [] d count = (d, count)"
| "scanPending G uuid now (a # rest) d count =
     (if now < alt_Timestamp a + 10 * Minute then (d, count)
      else scanPending G uuid now rest (insertKnown G uuid d a) (count + 1))"

definition tick :: "'g Graph \<Rightarrow> string \<Rightarrow> int \<Rightarrow> 'g dupNames \<Rightarrow> 'g dupNames" where
  "tick G uuid now d =
     (case scanPending G uuid now (pending d) d 0 of
        (d', count) \<Rightarrow> d'\<lparr>pending := drop count (pending d')\<rparr>)"

text \<open>
  \<open>flush\<close> is the loop after the \<open>select\<close> loop, run once \<open>done\<close> is closed: every
  entry, whatever its age.
\<close>

definition flush :: "'g Graph \<Rightarrow> string \<Rightarrow> 'g dupNames \<Rightarrow> altsource list \<Rightarrow> 'g dupNames" where
  "flush G uuid d entries = foldl (insertKnown G uuid) d entries"

section \<open>Counting dots\<close>

text \<open>The number of dots of a string, to count the labels that \<open>Split\<close> returns.\<close>

definition dots :: "string \<Rightarrow> nat" where
  "dots s = length (filter (\<lambda>c. c = CHR ''.'') s)"

section \<open>Example inputs\<close>

definition exResolved :: "string ResolvedRequest" where
  "exResolved =
     \<lparr>res_Name = ''a.b.example.com'', res_Domain = ''example.com'', res_Records = [],
      res_Tag = ''cert'', res_Source = ''Crtsh''\<rparr>"

definition exampleScope :: "string \<Rightarrow> bool" where
  "exampleScope name =
     (name = ''example.com'' \<or> drop (length name - 12) name = ''.example.com'')"

definition exEnum :: Enumeration where
  "exEnum = \<lparr>IsDomainInScope = exampleScope, IsCNAMENode = (\<lambda>sub. False)\<rparr>"

definition exTask :: "string subdomainTask" where
  "exTask = \<lparr>out_queue = [], subdomains = Map.empty, root_sends = []\<rparr>"

definition exRequest :: "string \<Rightarrow> string DNSRequest" where
  "exRequest name =
     \<lparr>req_Name = name, req_Domain = ''example.com'', req_Records = [],
      req_Tag = ''cert'', req_Source = ''Crtsh''\<rparr>"

definition exSubdomain :: "int \<Rightarrow> SubdomainRequest" where
  "exSubdomain n =
     \<lparr>sub_Name = ''b.example.com'', sub_Domain = ''example.com'', sub_Tag = ''cert'',
      sub_Source = ''Crtsh'', sub_Times = n\<rparr>"

definition exResolvedOf :: "string \<Rightarrow> string ResolvedRequest" where
  "exResolvedOf name =
     \<lparr>res_Name = name, res_Domain = ''example.com'', res_Records = [],
      res_Tag = ''cert'', res_Source = ''Crtsh''\<rparr>"

definition exGraph :: "(string \<times> string) list Graph" where
  "exGraph =
     \<lparr>ReadNode = (\<lambda>g name. list_ex (\<lambda>edge. fst edge = name) g),
      InsertFQDN = (\<lambda>g name source tag uuid. g @ [(name, source)])\<rparr>"

definition exAlt :: "string \<Rightarrow> int \<Rightarrow> altsource" where
  "exAlt name t = \<lparr>alt_Name = name, alt_Source = ''Crtsh'', alt_Tag = ''cert'', alt_Timestamp = t\<rparr>"

definition exDup :: "(string \<times> string) list dupNames" where
  "exDup =
     \<lparr>graph = [(''a.example.com'', ''DNS'')],
      pending = [exAlt ''a.example.com'' 0, exAlt ''x.example.com'' 0,
                 exAlt ''a.example.com'' (5 * Minute), exAlt ''a.example.com'' 0],
      inserted = []\<rparr>"

definition exLocations :: "string \<Rightarrow> nat list" where
  "exLocations key = [sum_list (map of_char key) mod 64, 64 + length key mod 64]"

definition exParams :: "int \<Rightarrow> string filterParams" where
  "exParams maxSize =
     \<lparr>Valid = (\<lambda>req. req_Name req \<noteq> [] \<and> req_Domain req \<noteq> []),
      TrustedTag = (\<lambda>tag. tag = ''cert'' \<or> tag = ''dns''),
      filterMaxSize = maxSize,
      locations = exLocations\<rparr>"



definition exFilter :: "string fqdnFilter" where
  "exFilter = \<lparr>f_filter = NewBloomFilter, f_count = 0, f_queue = []\<rparr>"

definition exTagged :: "string \<Rightarrow> string \<Rightarrow> string DNSRequest" where
  "exTagged name tag =
     \<lparr>req_Name = name, req_Domain = ''example.com'', req_Records = [],
      req_Tag = tag, req_Source = ''Source''\<rparr>"


section \<open>Properties of OutputRequests\<close>

lemma int64_id: "- (2 ^ 63) \<le> x \<Longrightarrow> x < 2 ^ 63 \<Longrightarrow> int64 x = x"
  by (simp add: int64_def)

lemma requestAll_Other: "requestAll srcs Other count sent = (srcs \<noteq> [], count, sent)"
  by (cases srcs) simp_all

lemma drain_Other:
  "count < num \<Longrightarrow> drain num srcs count sent (Other # queue) = drain num srcs count sent queue"
  by (cases "srcs = []") (simp_all add: requestAll_Other)

lemma requestAll_recognized:
  "element \<noteq> Other \<Longrightarrow> fst (requestAll srcs element count sent) = False"
  by (induction srcs arbitrary: count sent) (auto split: element.splits)

lemma drain_filter:
  "count < num \<Longrightarrow>
   (case drain num srcs count sent queue of
      (c, left, s) \<Rightarrow>
        drain num srcs count sent (filter (\<lambda>e. e \<noteq> Other) queue)
          = (c, filter (\<lambda>e. e \<noteq> Other) left, s))"
proof (induction queue arbitrary: count sent)
  case Nil
  then show ?case by simp
next
  case (Cons e queue)
  show ?case
  proof (cases "e = Other")
    case True
    with Cons show ?thesis by (simp add: drain_Other del: drain.simps)
  next
    case False
    obtain b c' s' where r: "requestAll srcs e count sent = (b, c', s')"
      by (cases "requestAll srcs e count sent") auto
    with False have b: "b = False"
      using requestAll_recognized[of e srcs count sent] by simp
    show ?thesis
    proof (cases "c' \<ge> num")
      case True
      with False r b show ?thesis by simp
    next
      case False
      then have "c' < num" by simp
      from Cons.IH[OF this, of s'] \<open>e \<noteq> Other\<close> r b False show ?thesis by simp
    qed
  qed
qed

lemma drain_no_sources: "count < num \<Longrightarrow> drain num [] count sent queue = (count, [], sent)"
  by (induction queue) simp_all

lemma requestAll_count:
  "0 \<le> count \<Longrightarrow> count + int (length srcs) < 2 ^ 63 \<Longrightarrow>
   requestAll srcs element count sent = (b, c', s') \<Longrightarrow>
   count \<le> c' \<and> c' \<le> count + int (length srcs) \<and> (b \<longrightarrow> c' = count)"
proof (induction srcs arbitrary: count sent)
  case Nil
  then show ?case by simp
next
  case (Cons src srcs)
  have w: "int64 (count + 1) = count + 1"
    using Cons.prems by (intro int64_id) auto
  show ?case
  proof (cases element)
    case (Resolved v)
    with Cons.prems w
    have "requestAll srcs element (count + 1) (sent @ [(src, Resolved v)]) = (b, c', s')"
      by simp
    from Cons.IH[OF _ _ this] Cons.prems Resolved
    show ?thesis using requestAll_recognized[of element "src # srcs" count sent] by simp
  next
    case (Subdomain v)
    with Cons.prems w
    have "requestAll srcs element (count + 1) (sent @ [(src, Subdomain v)]) = (b, c', s')"
      by simp
    from Cons.IH[OF _ _ this] Cons.prems Subdomain
    show ?thesis using requestAll_recognized[of element "src # srcs" count sent] by simp
  next
    case Other
    with Cons.prems show ?thesis by simp
  qed
qed

lemma drain_bound:
  "0 \<le> count \<Longrightarrow> count < num \<Longrightarrow>
   count + int (length queue) * int (length srcs) < 2 ^ 63 \<Longrightarrow>
   drain num srcs count sent queue = (c, left, s) \<Longrightarrow>
   0 \<le> c \<and> c \<le> num - 1 + int (length srcs)"
proof (induction queue arbitrary: count sent)
  case Nil
  then show ?case by auto
next
  case (Cons e queue)
  obtain b c' s' where r: "requestAll srcs e count sent = (b, c', s')"
    by (cases "requestAll srcs e count sent") auto
  have "count + int (length srcs) \<le> count + int (length (e # queue)) * int (length srcs)"
    by (simp add: distrib_right)
  with Cons.prems have "count + int (length srcs) < 2 ^ 63" by linarith
  from requestAll_count[OF Cons.prems(1) this r]
  have c': "count \<le> c'" "c' \<le> count + int (length srcs)" "b \<longrightarrow> c' = count"
    by simp_all
  have nw: "c' + int (length queue) * int (length srcs) < 2 ^ 63"
    using c' Cons.prems(3) by (simp add: distrib_right)
  show ?case
  proof (cases "b \<or> c' < num")
    case True
    then have d: "drain num srcs c' s' queue = (c, left, s)"
      using Cons.prems(4) r by (cases b) (auto split: if_splits)
    from True c' Cons.prems(2) have "c' < num" by auto
    from Cons.IH[OF _ this nw d] c' Cons.prems show ?thesis by simp
  next
    case False
    then have "c = c'" using Cons.prems(4) r by auto
    with c' False Cons.prems show ?thesis by auto
  qed
qed

text \<open>
  Claim C1, as the code has it. An element of an unrecognized type does not end the
  drain pass: \<open>continue loop\<close> goes on to the next queued element. Whenever the loop
  pulls such an element (its count is below \<open>num\<close> at every pull), the pass goes on
  exactly as if the element had not been queued; so a whole pass sends the same
  requests and returns the same count as on the queue without its unrecognized
  elements, and leaves the same recognized elements behind.
\<close>

theorem OutputRequests_skips_unrecognized:
  "(count < num \<longrightarrow>
      drain num srcs count sent (Other # queue) = drain num srcs count sent queue)
   \<and> (case OutputRequests num srcs queue of
        (c, left, s) \<Rightarrow>
          OutputRequests num srcs (filter (\<lambda>e. e \<noteq> Other) queue)
            = (c, filter (\<lambda>e. e \<noteq> Other) left, s))"
proof
  show "count < num \<longrightarrow>
      drain num srcs count sent (Other # queue) = drain num srcs count sent queue"
    by (simp add: drain_Other del: drain.simps)
next
  show "case OutputRequests num srcs queue of
        (c, left, s) \<Rightarrow>
          OutputRequests num srcs (filter (\<lambda>e. e \<noteq> Other) queue)
            = (c, filter (\<lambda>e. e \<noteq> Other) left, s)"
  proof (cases "num \<le> 0")
    case True
    then show ?thesis by (simp add: OutputRequests_def)
  next
    case False
    then have "(0::int) < num" by simp
    from drain_filter[OF this, of srcs "[]" queue] False
    show ?thesis by (simp add: OutputRequests_def)
  qed
qed

theorem OutputRequests_skips_unrecognized_witness:
  "(0::int) < 10
   \<and> drain 10 [''src''] 0 [] [Other, Resolved exResolved, Other, Resolved exResolved]
       = drain 10 [''src''] 0 [] [Resolved exResolved, Other, Resolved exResolved]
   \<and> OutputRequests 10 [''src''] [Resolved exResolved, Other, Resolved exResolved]
       = (2, [], [(''src'', Resolved exResolved), (''src'', Resolved exResolved)])"
  using OutputRequests_skips_unrecognized
    [of 0 10 "[''src'']" "[]" "[Resolved exResolved, Other, Resolved exResolved]"]
  by (simp add: OutputRequests_def int64_def)

text \<open>
  Claim C1 as stated fails: with one source and the queue holding an unrecognized
  element before a resolved record, the pass does not stop at the unrecognized element;
  the record behind it is sent and counted.
\<close>

theorem OutputRequests_abort_counterexample:
  "OutputRequests 10 [''src''] [Other, Resolved exResolved]
     = (1, [], [(''src'', Resolved exResolved)])"
  by (simp add: OutputRequests_def int64_def)

text \<open>
  Claim C4, as the code has it. A capacity \<open>num \<le> 0\<close> returns 0 and leaves the queue
  as it is. For \<open>num > 0\<close> the count is tested only after an element has gone to every
  source, so the returned count can pass \<open>num\<close>, by less than the number of sources:
  it is at most \<open>num - 1 + len(srcs)\<close> (as long as the count cannot wrap, which
  \<open>len(queue) * len(srcs) < 2^63\<close> ensures).
\<close>

theorem OutputRequests_capacity:
  "(num \<le> 0 \<longrightarrow> OutputRequests num srcs queue = (0, queue, []))
   \<and> (0 < num \<and> int (length queue) * int (length srcs) < 2 ^ 63 \<longrightarrow>
        0 \<le> fst (OutputRequests num srcs queue)
        \<and> fst (OutputRequests num srcs queue) \<le> num - 1 + int (length srcs))"
proof (intro conjI impI)
  assume "num \<le> 0"
  then show "OutputRequests num srcs queue = (0, queue, [])"
    by (simp add: OutputRequests_def)
next
  assume a: "0 < num \<and> int (length queue) * int (length srcs) < 2 ^ 63"
  obtain c left s where d: "drain num srcs 0 [] queue = (c, left, s)"
    by (cases "drain num srcs 0 [] queue") auto
  from a drain_bound[OF _ _ _ d] have "0 \<le> c \<and> c \<le> num - 1 + int (length srcs)" by simp
  with a d show "0 \<le> fst (OutputRequests num srcs queue)"
    and "fst (OutputRequests num srcs queue) \<le> num - 1 + int (length srcs)"
    by (simp_all add: OutputRequests_def)
qed

theorem OutputRequests_capacity_witness:
  "OutputRequests 0 [''s1'', ''s2''] [Resolved exResolved] = (0, [Resolved exResolved], [])
   \<and> fst (OutputRequests 1 [''s1'', ''s2''] [Resolved exResolved, Other]) = 2
   \<and> (2::int) \<le> 1 - 1 + 2"
proof -
  have "fst (OutputRequests 1 [''s1'', ''s2''] [Resolved exResolved, Other]) = 2"
    by (simp add: OutputRequests_def int64_def)
  then show ?thesis
    using OutputRequests_capacity[of 0 "[''s1'', ''s2'']" "[Resolved exResolved]"]
      OutputRequests_capacity[of 1 "[''s1'', ''s2'']" "[Resolved exResolved, Other]"]
    by simp
qed

text \<open>
  Claim C4 as stated fails: with two sources, one queued record and capacity 1, the
  record goes to both sources and the returned count is 2.
\<close>

theorem OutputRequests_capacity_counterexample:
  "\<not> fst (OutputRequests 1 [''s1'', ''s2''] [Resolved exResolved]) \<le> 1"
  by (simp add: OutputRequests_def int64_def)

text \<open>
  Claim C10. With no source registered and a positive capacity, the pass takes every
  element off the queue, sends nothing and returns 0.
\<close>

theorem OutputRequests_no_sources:
  "0 < num \<Longrightarrow> OutputRequests num [] queue = (0, [], [])"
  by (simp add: OutputRequests_def drain_no_sources)

theorem OutputRequests_no_sources_witness:
  "(0::int) < 5 \<and> OutputRequests 5 ([]::string list) [Resolved exResolved, Other] = (0, [], [])"
  using OutputRequests_no_sources[of 5 "[Resolved exResolved, Other]"]
  by simp

section \<open>Properties of subdomainTask\<close>

lemma Split_not_Nil: "Split s \<noteq> []"
  by (induction s) (auto split: list.splits)

lemma length_Split: "length (Split s) = Suc (dots s)"
  by (induction s) (auto simp: dots_def Split_not_Nil split: list.splits)

lemma Split_no_dots: "w \<in> set (Split s) \<Longrightarrow> dots w = 0"
  by (induction s arbitrary: w) (auto simp: dots_def split: list.splits if_splits)

lemma dots_Join: "\<forall>w \<in> set ws. dots w = 0 \<Longrightarrow> dots (Join ws) = length ws - 1"
  by (induction ws rule: Join.induct) (auto simp: dots_def)

lemma runePrefix_take:
  "runePrefix runes s \<noteq> 0 \<Longrightarrow> take (runePrefix runes s) s \<in> set runes"
proof -
  assume a: "runePrefix runes s \<noteq> 0"
  then obtain e es where f: "filter (\<lambda>e. take (length e) s = e) runes = e # es"
    by (auto simp: runePrefix_def split: list.splits)
  then have "e \<in> set (filter (\<lambda>e. take (length e) s = e) runes)" by simp
  then have "e \<in> set runes" "take (length e) s = e" by auto
  with f show ?thesis by (simp add: runePrefix_def)
qed

lemma dots_trimRunes:
  "\<forall>e \<in> set runes. dots e = 0 \<Longrightarrow> dots (trimRunes runes s) = dots s"
proof (induction runes s rule: trimRunes.induct)
  case (1 runes)
  then show ?case by simp
next
  case (2 runes c cs)
  show ?case
  proof (cases "runePrefix runes (c # cs) = 0")
    case True
    then show ?thesis by simp
  next
    case False
    let ?n = "runePrefix runes (c # cs)"
    from runePrefix_take[OF False] 2(2) have "dots (take ?n (c # cs)) = 0" by blast
    moreover have "dots (c # cs) = dots (take ?n (c # cs)) + dots (drop ?n (c # cs))"
      unfolding dots_def by (metis append_take_drop_id filter_append length_append)
    moreover from False have "drop ?n (c # cs) = drop (?n - 1) cs"
      by (cases ?n) simp_all
    ultimately show ?thesis using 2 False by simp
  qed
qed

lemma dots_spaceRunes: "\<forall>e \<in> set spaceRunes. dots e = 0"
  by (simp add: spaceRunes_def dots_def)

lemma dots_rev: "dots (rev s) = dots s"
  by (simp add: dots_def flip: rev_filter)

lemma dots_TrimSpace: "dots (TrimSpace s) = dots s"
proof -
  have "\<forall>e \<in> set (map rev spaceRunes). dots e = 0"
    using dots_spaceRunes by (simp add: dots_rev)
  then show ?thesis
    by (simp add: TrimSpace_def TrimLeft_def TrimRight_def dots_rev dots_trimRunes dots_spaceRunes)
qed

lemma length_Split_candidate:
  "2 \<le> length (Split name) \<Longrightarrow>
   length (Split (TrimSpace (Join (tl (Split name))))) = length (Split name) - 1"
proof -
  assume a: "2 \<le> length (Split name)"
  have "\<forall>w \<in> set (tl (Split name)). dots w = 0"
    using Split_no_dots by (metis list.set_sel(2) Split_not_Nil)
  then have "dots (Join (tl (Split name))) = length (tl (Split name)) - 1"
    by (rule dots_Join)
  with a show ?thesis by (simp add: length_Split dots_TrimSpace)
qed

lemma trimRunes_id: "runePrefix runes s = 0 \<Longrightarrow> trimRunes runes s = s"
  by (cases s) simp_all

lemma TrimSpace_id:
  "runePrefix spaceRunes s = 0 \<Longrightarrow> runePrefix (map rev spaceRunes) (rev s) = 0 \<Longrightarrow> TrimSpace s = s"
  by (simp add: TrimSpace_def TrimLeft_def TrimRight_def trimRunes_id)

lemma checkForSubdomains_cases:
  "checkForSubdomains e r req = (out, r') \<Longrightarrow>
   (r' = r \<and>
      (length (Split (req_Name req)) < 2
       \<or> length (Split (req_Name req)) - 1 < length (Split (req_Domain req))
       \<or> IsCNAMENode e (TrimSpace (Join (tl (Split (req_Name req)))))))
   \<or> (2 \<le> length (Split (req_Name req))
       \<and> length (Split (req_Domain req)) \<le> length (Split (req_Name req)) - 1
       \<and> \<not> IsCNAMENode e (TrimSpace (Join (tl (Split (req_Name req)))))
       \<and> (\<exists>sr. sr = \<lparr>sub_Name = TrimSpace (Join (tl (Split (req_Name req)))),
                       sub_Domain = req_Domain req, sub_Tag = req_Tag req,
                       sub_Source = req_Source req,
                       sub_Times = snd (timesForSubdomain (subdomains r) (TrimSpace (Join (tl (Split (req_Name req))))))\<rparr>
             \<and> out_queue r' = out_queue r @ [Subdomain sr]
             \<and> root_sends r' = root_sends r @
                  (if sub_Name sr \<noteq> req_Domain req \<and> sub_Times sr = 1 then [sr] else [])))"
  unfolding checkForSubdomains_def Let_def
  by (auto split: if_splits prod.splits)

lemma ex_first:
  "checkForSubdomains exEnum exTask (exRequest ''a.b.example.com'')
     = (Some (DNSData (exRequest ''a.b.example.com'')),
        \<lparr>out_queue = [Subdomain (exSubdomain 1)],
         subdomains = [''b.example.com'' \<mapsto> 1],
         root_sends = [exSubdomain 1]\<rparr>)"
  by (simp add: checkForSubdomains_def Let_def exEnum_def exTask_def exRequest_def exSubdomain_def
      TrimSpace_def TrimLeft_def TrimRight_def runePrefix_def spaceRunes_def
      timesForSubdomain_def timesReply_def)

lemma ex_second:
  "checkForSubdomains exEnum
     \<lparr>out_queue = [Subdomain (exSubdomain 1)],
         subdomains = [''b.example.com'' \<mapsto> 1],
         root_sends = [exSubdomain 1]\<rparr> (exRequest ''c.b.example.com'')
     = (Some (DNSData (exRequest ''c.b.example.com'')),
        \<lparr>out_queue = [Subdomain (exSubdomain 1), Subdomain (exSubdomain 2)],
         subdomains = [''b.example.com'' \<mapsto> 2],
         root_sends = [exSubdomain 1]\<rparr>)"
  by (simp add: checkForSubdomains_def Let_def exEnum_def exTask_def exRequest_def exSubdomain_def
      TrimSpace_def TrimLeft_def TrimRight_def runePrefix_def spaceRunes_def
      timesForSubdomain_def timesReply_def int64_def)

lemma ex_process:
  "Process exEnum exTask (DNSData (exRequest ''a.b.example.com''))
     = (Some (DNSData (exRequest ''a.b.example.com'')),
        \<lparr>out_queue = [Resolved (exResolvedOf ''a.b.example.com''), Subdomain (exSubdomain 1)],
         subdomains = [''b.example.com'' \<mapsto> 1],
         root_sends = [exSubdomain 1]\<rparr>)"
  by (simp add: Process_def checkForSubdomains_def Let_def exEnum_def exTask_def exRequest_def
      exSubdomain_def exResolvedOf_def exampleScope_def
      TrimSpace_def TrimLeft_def TrimRight_def runePrefix_def spaceRunes_def
      timesForSubdomain_def timesReply_def)

text \<open>
  Claim C2, as the code has it. For an input that is not a request, is \<open>nil\<close>, is out
  of scope or has a service label, \<open>Process\<close> appends nothing to the output queue.
  Otherwise it appends the resolved record of the request, alone whenever no candidate
  is derived (fewer than two labels, fewer labels left than the domain has, or a CNAME
  node), and followed by the subdomain record of the candidate in every other case.
  So a subdomain record never goes out without the resolved record of the same input,
  but the resolved record does go out alone.
\<close>

theorem Process_queue_shapes:
  "Process e r data = (out, r') \<Longrightarrow>
   (case data of
      DNSData req \<Rightarrow>
        if \<not> IsDomainInScope e (req_Name req)
           \<or> list_ex (\<lambda>label. label = ''_tcp'' \<or> label = ''_udp'' \<or> label = ''_tls'')
                (Split (req_Name req))
        then out_queue r' = out_queue r
        else if length (Split (req_Name req)) < 2
                \<or> length (Split (req_Name req)) - 1 < length (Split (req_Domain req))
                \<or> IsCNAMENode e (TrimSpace (Join (tl (Split (req_Name req)))))
        then out_queue r' = out_queue r @
               [Resolved \<lparr>res_Name = req_Name req, res_Domain = req_Domain req,
                           res_Records = req_Records req, res_Tag = req_Tag req,
                           res_Source = req_Source req\<rparr>]
        else out_queue r' = out_queue r @
               [Resolved \<lparr>res_Name = req_Name req, res_Domain = req_Domain req,
                           res_Records = req_Records req, res_Tag = req_Tag req,
                           res_Source = req_Source req\<rparr>,
                Subdomain \<lparr>sub_Name = TrimSpace (Join (tl (Split (req_Name req)))),
                            sub_Domain = req_Domain req, sub_Tag = req_Tag req,
                            sub_Source = req_Source req,
                            sub_Times = snd (timesForSubdomain (subdomains r)
                              (TrimSpace (Join (tl (Split (req_Name req))))))\<rparr>]
    | NilDNSData \<Rightarrow> out_queue r' = out_queue r
    | OtherData \<Rightarrow> out_queue r' = out_queue r)
   \<and> (out_queue r' = out_queue r
      \<or> (\<exists>req. data = DNSData req
         \<and> (out_queue r' = out_queue r @
               [Resolved \<lparr>res_Name = req_Name req, res_Domain = req_Domain req,
                           res_Records = req_Records req, res_Tag = req_Tag req,
                           res_Source = req_Source req\<rparr>]
            \<or> (\<exists>sr. out_queue r' = out_queue r @
                  [Resolved \<lparr>res_Name = req_Name req, res_Domain = req_Domain req,
                              res_Records = req_Records req, res_Tag = req_Tag req,
                              res_Source = req_Source req\<rparr>,
                   Subdomain sr]))))"
proof -
  assume a: "Process e r data = (out, r')"
  show ?thesis
  proof (cases data)
    case (DNSData req)
    show ?thesis
    proof (cases "IsDomainInScope e (req_Name req) \<and>
        \<not> list_ex (\<lambda>label. label = ''_tcp'' \<or> label = ''_udp'' \<or> label = ''_tls'') (Split (req_Name req))")
      case True
      let ?r1 = "r\<lparr>out_queue := out_queue r @
                      [Resolved \<lparr>res_Name = req_Name req, res_Domain = req_Domain req,
                                 res_Records = req_Records req, res_Tag = req_Tag req,
                                 res_Source = req_Source req\<rparr>]\<rparr>"
      from a DNSData True have "checkForSubdomains e ?r1 req = (out, r')"
        by (simp add: Process_def)
      from checkForSubdomains_cases[OF this] DNSData True show ?thesis by auto
    next
      case False
      with a DNSData show ?thesis by (auto simp: Process_def split: if_splits)
    qed
  next
    case NilDNSData
    with a show ?thesis by (simp add: Process_def)
  next
    case OtherData
    with a show ?thesis by (simp add: Process_def)
  qed
qed

theorem Process_queue_shapes_witness:
  "out_queue (snd (Process exEnum exTask (DNSData (exRequest ''a.b.example.com''))))
     = out_queue exTask @ [Resolved (exResolvedOf ''a.b.example.com''), Subdomain (exSubdomain 1)]"
proof -
  have "out_queue exTask = []" by (simp add: exTask_def)
  with Process_queue_shapes[OF ex_process] show ?thesis
    by (simp add: ex_process)
qed

text \<open>
  Claim C2 as stated fails: for the name \<open>example.com\<close> under the domain
  \<open>example.com\<close> the resolved record is queued and no subdomain record is.
\<close>

theorem Process_queue_shapes_counterexample:
  "out_queue (snd (Process exEnum exTask (DNSData (exRequest ''example.com''))))
     = [Resolved (exResolvedOf ''example.com'')]"
  by (simp add: Process_def checkForSubdomains_def Let_def exEnum_def exTask_def exRequest_def
      exResolvedOf_def exampleScope_def)


text \<open>
  Claim C5. \<open>checkForSubdomains\<close> either queues nothing and starts no send, or queues
  one subdomain record whose \<open>Times\<close> is the manager's reply for its name; then it
  starts exactly one send to the pipeline's \<open>root\<close> stage when the name differs from
  the request's domain and \<open>Times\<close> is 1, and none otherwise.
\<close>

theorem checkForSubdomains_resubmits_first:
  "checkForSubdomains e r req = (out, r') \<Longrightarrow>
   (out_queue r' = out_queue r \<and> root_sends r' = root_sends r)
   \<or> (\<exists>sr. out_queue r' = out_queue r @ [Subdomain sr]
          \<and> sub_Times sr = snd (timesForSubdomain (subdomains r) (sub_Name sr))
          \<and> root_sends r' = root_sends r @
               (if sub_Name sr \<noteq> req_Domain req \<and> sub_Times sr = 1 then [sr] else []))"
  using checkForSubdomains_cases[of e r req out r'] by auto

theorem checkForSubdomains_resubmits_first_witness:
  "root_sends (snd (checkForSubdomains exEnum exTask (exRequest ''a.b.example.com'')))
     = [exSubdomain 1]
   \<and> root_sends (snd (checkForSubdomains exEnum
         (snd (checkForSubdomains exEnum exTask (exRequest ''a.b.example.com'')))
         (exRequest ''c.b.example.com'')))
     = [exSubdomain 1]"
proof -
  let ?r1 = "\<lparr>out_queue = [Subdomain (exSubdomain 1)],
         subdomains = [''b.example.com'' \<mapsto> 1],
         root_sends = [exSubdomain 1]\<rparr> :: string subdomainTask"
  from checkForSubdomains_resubmits_first[OF ex_first]
  have "root_sends ?r1 = root_sends exTask @ [exSubdomain 1]"
    by (auto simp: exTask_def exSubdomain_def)
  moreover from checkForSubdomains_resubmits_first[OF ex_second]
  have "root_sends \<lparr>out_queue = [Subdomain (exSubdomain 1), Subdomain (exSubdomain 2)],
         subdomains = [''b.example.com'' \<mapsto> 2],
         root_sends = [exSubdomain 1]\<rparr> = root_sends ?r1 @ []"
    by (auto simp: exSubdomain_def)
  ultimately show ?thesis
    by (simp add: ex_first ex_second)
qed

text \<open>
  Claim C6, as the code has it. The candidate is the name without its leftmost label,
  with the white space around the rest trimmed by \<open>TrimSpace\<close>; it is the rest itself
  when the rest neither starts nor ends with a white-space rune. A candidate is queued
  only when the name has at least two labels and the candidate, which has one label
  less than the name, has at least as many labels as the domain. Under the domain
  \<open>example.com\<close> the name \<open>a.b.example.com\<close> gives \<open>b.example.com\<close> (unless the
  graph has it as a CNAME node), and the name \<open>example.com\<close> changes nothing.
\<close>

theorem checkForSubdomains_candidate:
  "(checkForSubdomains e r req = (out, r') \<and> out_queue r' = out_queue r @ [Subdomain sr] \<longrightarrow>
      2 \<le> length (Split (req_Name req))
      \<and> length (Split (req_Domain req)) \<le> length (Split (sub_Name sr))
      \<and> length (Split (sub_Name sr)) = length (Split (req_Name req)) - 1
      \<and> sub_Name sr = TrimSpace (Join (tl (Split (req_Name req))))
      \<and> (runePrefix spaceRunes (Join (tl (Split (req_Name req)))) = 0
           \<and> runePrefix (map rev spaceRunes) (rev (Join (tl (Split (req_Name req))))) = 0
         \<longrightarrow> sub_Name sr = Join (tl (Split (req_Name req)))))
   \<and> (req_Name req = ''a.b.example.com'' \<and> req_Domain req = ''example.com''
        \<and> \<not> IsCNAMENode e ''b.example.com'' \<longrightarrow>
      out_queue (snd (checkForSubdomains e r req)) = out_queue r @
        [Subdomain \<lparr>sub_Name = ''b.example.com'', sub_Domain = ''example.com'',
                     sub_Tag = req_Tag req, sub_Source = req_Source req,
                     sub_Times = snd (timesForSubdomain (subdomains r) ''b.example.com'')\<rparr>])
   \<and> (req_Name req = ''example.com'' \<and> req_Domain req = ''example.com'' \<longrightarrow>
      snd (checkForSubdomains e r req) = r)"
proof (intro conjI impI)
  assume a: "checkForSubdomains e r req = (out, r') \<and> out_queue r' = out_queue r @ [Subdomain sr]"
  let ?sub = "TrimSpace (Join (tl (Split (req_Name req))))"
  from a checkForSubdomains_cases[of e r req out r']
  have b: "2 \<le> length (Split (req_Name req))"
    "length (Split (req_Domain req)) \<le> length (Split (req_Name req)) - 1"
    "sub_Name sr = ?sub"
    by auto
  from b show "2 \<le> length (Split (req_Name req))" by simp
  from b show "sub_Name sr = ?sub" by simp
  from b length_Split_candidate[OF b(1)]
  show "length (Split (sub_Name sr)) = length (Split (req_Name req)) - 1" by simp
  with b show "length (Split (req_Domain req)) \<le> length (Split (sub_Name sr))" by simp
  assume "runePrefix spaceRunes (Join (tl (Split (req_Name req)))) = 0
           \<and> runePrefix (map rev spaceRunes) (rev (Join (tl (Split (req_Name req))))) = 0"
  with b TrimSpace_id show "sub_Name sr = Join (tl (Split (req_Name req)))" by simp
next
  assume a: "req_Name req = ''a.b.example.com'' \<and> req_Domain req = ''example.com''
        \<and> \<not> IsCNAMENode e ''b.example.com''"
  have "TrimSpace (Join (tl (Split ''a.b.example.com''))) = ''b.example.com''"
    by code_simp
  with a show "out_queue (snd (checkForSubdomains e r req)) = out_queue r @
        [Subdomain \<lparr>sub_Name = ''b.example.com'', sub_Domain = ''example.com'',
                     sub_Tag = req_Tag req, sub_Source = req_Source req,
                     sub_Times = snd (timesForSubdomain (subdomains r) ''b.example.com'')\<rparr>]"
    by (simp add: checkForSubdomains_def Let_def split: prod.splits)
next
  assume "req_Name req = ''example.com'' \<and> req_Domain req = ''example.com''"
  then show "snd (checkForSubdomains e r req) = r"
    by (simp add: checkForSubdomains_def Let_def)
qed



theorem checkForSubdomains_candidate_witness:
  "sub_Name (exSubdomain 1) = ''b.example.com''
   \<and> length (Split (sub_Name (exSubdomain 1))) = 3
   \<and> out_queue (snd (checkForSubdomains exEnum exTask (exRequest ''a.b.example.com'')))
       = [Subdomain (exSubdomain 1)]
   \<and> snd (checkForSubdomains exEnum exTask (exRequest ''example.com'')) = exTask"
proof -
  let ?r1 = "\<lparr>out_queue = [Subdomain (exSubdomain 1)],
         subdomains = [''b.example.com'' \<mapsto> 1],
         root_sends = [exSubdomain 1]\<rparr> :: string subdomainTask"
  have q: "out_queue ?r1 = out_queue exTask @ [Subdomain (exSubdomain 1)]"
    by (simp add: exTask_def)
  have n: "req_Name (exRequest ''a.b.example.com'') = ''a.b.example.com''"
    by (simp add: exRequest_def)
  have m: "req_Name (exRequest ''example.com'') = ''example.com''
      \<and> req_Domain (exRequest ''example.com'') = ''example.com''"
    by (simp add: exRequest_def)
  note t = checkForSubdomains_candidate
    [of exEnum exTask "exRequest ''a.b.example.com''" "Some (DNSData (exRequest ''a.b.example.com''))"
        ?r1 "exSubdomain 1"]
  note u = checkForSubdomains_candidate
    [of exEnum exTask "exRequest ''example.com''" "Some (DNSData (exRequest ''a.b.example.com''))"
        ?r1 "exSubdomain 1"]
  from t ex_first q
  have "length (Split (sub_Name (exSubdomain 1)))
      = length (Split (req_Name (exRequest ''a.b.example.com''))) - 1"
    by blast
  with n have "length (Split (sub_Name (exSubdomain 1))) = 3" by simp
  moreover from u m have "snd (checkForSubdomains exEnum exTask (exRequest ''example.com'')) = exTask"
    by blast
  moreover have "sub_Name (exSubdomain 1) = ''b.example.com''"
    by (simp add: exSubdomain_def)
  ultimately show ?thesis by (simp add: ex_first)
qed

text \<open>
  Claim C6 as stated fails on the word "exactly": for the name \<open>a. b.example.com\<close> the
  name without its leftmost label starts with a space, and the candidate does not.
\<close>

theorem checkForSubdomains_candidate_counterexample:
  "out_queue (snd (checkForSubdomains exEnum exTask (exRequest ''a. b.example.com'')))
     = [Subdomain (exSubdomain 1)]
   \<and> sub_Name (exSubdomain 1) = ''b.example.com''
   \<and> Join (tl (Split ''a. b.example.com'')) = '' b.example.com''"
  by (simp add: checkForSubdomains_def Let_def exEnum_def exTask_def exRequest_def exSubdomain_def
      TrimSpace_def TrimLeft_def TrimRight_def runePrefix_def spaceRunes_def
      timesForSubdomain_def timesReply_def)


section \<open>Properties of the occurrence counter\<close>

lemma timesManager_length: "length (timesManager m reqs) = length reqs"
  by (induction reqs arbitrary: m) (auto simp: timesReply_def Let_def)

lemma timesManager_nth:
  "\<forall>k. m k = (if c k = 0 then None else Some (int (c k))) \<Longrightarrow>
   \<forall>k. int (c k) + int (length reqs) < 2 ^ 63 \<Longrightarrow>
   i < length reqs \<Longrightarrow>
   timesManager m reqs ! i = int (c (reqs ! i) + count_list (take (Suc i) reqs) (reqs ! i))"
proof (induction reqs arbitrary: m c i)
  case Nil
  then show ?case by simp
next
  case (Cons r rs)
  let ?t = "int (c r) + 1"
  have nw: "int64 ?t = ?t"
    using Cons.prems(2) by (intro int64_id) (auto dest: spec[of _ r])
  have reply: "timesReply m r = (m(r \<mapsto> ?t), ?t)"
    using Cons.prems(1) nw by (auto simp: timesReply_def Let_def dest: spec[of _ r])
  show ?case
  proof (cases i)
    case 0
    with reply show ?thesis by simp
  next
    case (Suc j)
    let ?c = "c(r := Suc (c r))"
    have inv: "\<forall>k. (m(r \<mapsto> ?t)) k = (if ?c k = 0 then None else Some (int (?c k)))"
      using Cons.prems(1) by auto
    have bound: "\<forall>k. int (?c k) + int (length rs) < 2 ^ 63"
    proof
      fix k
      have "int (?c k) + int (length rs) \<le> int (c k) + int (length (r # rs))" by simp
      also have "\<dots> < 2 ^ 63" using Cons.prems(2) by blast
      finally show "int (?c k) + int (length rs) < 2 ^ 63" .
    qed
    from Suc Cons.prems(3) have j: "j < length rs" by simp
    from Cons.IH[OF inv bound j]
    have ih: "timesManager (m(r \<mapsto> ?t)) rs ! j
        = int (?c (rs ! j) + count_list (take (Suc j) rs) (rs ! j))" .
    have "timesManager m (r # rs) ! i = timesManager (m(r \<mapsto> ?t)) rs ! j"
      using Suc reply by (simp del: fun_upd_apply)
    also note ih
    also have "int (?c (rs ! j) + count_list (take (Suc j) rs) (rs ! j))
        = int (c ((r # rs) ! i) + count_list (take (Suc i) (r # rs)) ((r # rs) ! i))"
      using Suc by simp
    finally show ?thesis .
  qed
qed

lemma count_list_take_split:
  assumes "i < j" "j < length xs"
  shows "count_list (take (Suc j) xs) x
     = count_list (take (Suc i) xs) x + count_list (drop (Suc i) (take j xs)) x
       + (if xs ! j = x then 1 else 0)"
proof -
  have "take (Suc j) xs = take j xs @ [xs ! j]"
    using assms by (simp add: take_Suc_conv_app_nth)
  moreover have "take j xs = take (Suc i) (take j xs) @ drop (Suc i) (take j xs)"
    by (simp only: append_take_drop_id)
  moreover have "take (Suc i) (take j xs) = take (Suc i) xs"
    using assms by (simp add: min_def)
  ultimately have "take (Suc j) xs = take (Suc i) xs @ drop (Suc i) (take j xs) @ [xs ! j]"
    by simp
  then show ?thesis by simp
qed

lemma count_list_between:
  assumes "j \<le> length xs" "\<forall>k. i < k \<and> k < j \<longrightarrow> xs ! k \<noteq> x"
  shows "count_list (drop (Suc i) (take j xs)) x = 0"
proof -
  have "x \<notin> set (drop (Suc i) (take j xs))"
  proof
    assume "x \<in> set (drop (Suc i) (take j xs))"
    then obtain n where n: "n < length (drop (Suc i) (take j xs))"
        "drop (Suc i) (take j xs) ! n = x"
      by (auto simp: in_set_conv_nth)
    then have "Suc i + n < j" using assms(1) by simp
    with n have "xs ! (Suc i + n) = x" by simp
    with assms(2) \<open>Suc i + n < j\<close> show False by auto
  qed
  then show ?thesis by (simp add: count_list_0_iff)
qed

text \<open>
  Claim C7. The manager starts with an empty map and serves the requests in the order
  its channel delivers them. The reply to a request is the number of requests for
  that name served so far, the request itself included: the first request for a name
  gets 1, a later request for the same name gets a larger value, and the next request
  for the same name gets exactly one more. (The counter is a 64-bit \<open>int\<close>; fewer
  than \<open>2^63\<close> requests keep it from wrapping.)
\<close>

theorem timesManager_counts:
  assumes "int (length reqs) < 2 ^ 63" and "i < length reqs"
  shows "timesManager Map.empty reqs ! i = int (count_list (take (Suc i) reqs) (reqs ! i))
    \<and> (reqs ! i \<notin> set (take i reqs) \<longrightarrow> timesManager Map.empty reqs ! i = 1)
    \<and> (\<forall>j. i < j \<and> j < length reqs \<and> reqs ! j = reqs ! i \<longrightarrow>
          timesManager Map.empty reqs ! i < timesManager Map.empty reqs ! j)
    \<and> (\<forall>j. i < j \<and> j < length reqs \<and> reqs ! j = reqs ! i
            \<and> (\<forall>k. i < k \<and> k < j \<longrightarrow> reqs ! k \<noteq> reqs ! i) \<longrightarrow>
          timesManager Map.empty reqs ! j = timesManager Map.empty reqs ! i + 1)"
proof -
  have nth: "timesManager Map.empty reqs ! n = int (count_list (take (Suc n) reqs) (reqs ! n))"
    if "n < length reqs" for n
    using timesManager_nth[of Map.empty "\<lambda>k. 0" reqs n] assms(1) that by simp
  have first: "timesManager Map.empty reqs ! i = 1" if "reqs ! i \<notin> set (take i reqs)"
  proof -
    have "take (Suc i) reqs = take i reqs @ [reqs ! i]"
      using assms(2) by (simp add: take_Suc_conv_app_nth)
    moreover have "count_list (take i reqs) (reqs ! i) = 0"
      using that by (simp add: count_list_0_iff)
    ultimately show ?thesis using nth[OF assms(2)] by simp
  qed
  have later: "timesManager Map.empty reqs ! i < timesManager Map.empty reqs ! j"
    if "i < j" "j < length reqs" "reqs ! j = reqs ! i" for j
    using count_list_take_split[OF that(1,2), of "reqs ! i"] nth[OF that(2)] nth[OF assms(2)] that(3)
    by simp
  have succ: "timesManager Map.empty reqs ! j = timesManager Map.empty reqs ! i + 1"
    if "i < j" "j < length reqs" "reqs ! j = reqs ! i"
       "\<forall>k. i < k \<and> k < j \<longrightarrow> reqs ! k \<noteq> reqs ! i" for j
  proof -
    from that(2) have "j \<le> length reqs" by simp
    from count_list_between[OF this that(4)]
      count_list_take_split[OF that(1,2), of "reqs ! i"] nth[OF that(2)] nth[OF assms(2)] that(3)
    show ?thesis by simp
  qed
  from nth[OF assms(2)] first later succ show ?thesis by blast
qed

theorem timesManager_counts_witness:
  "int (length [''b.example.com'', ''example.com'', ''b.example.com'', ''b.example.com''])
     < 2 ^ 63
   \<and> timesManager Map.empty
       [''b.example.com'', ''example.com'', ''b.example.com'', ''b.example.com'']
     = [1, 1, 2, 3]"
  using timesManager_counts
    [of "[''b.example.com'', ''example.com'', ''b.example.com'', ''b.example.com'']" 2]
  by (simp add: timesReply_def int64_def)

section \<open>Properties of processDupNames\<close>

lemma pending_insertKnown: "pending (insertKnown G uuid d a) = pending d"
  by (simp add: insertKnown_def)

lemma pending_flush: "pending (flush G uuid d entries) = pending d"
  unfolding flush_def by (induction entries arbitrary: d) (simp_all add: pending_insertKnown)

lemma flush_Cons: "flush G uuid d (a # entries) = flush G uuid (insertKnown G uuid d a) entries"
  by (simp add: flush_def)

lemma scanPending_takeWhile:
  "scanPending G uuid now entries d count =
     (flush G uuid d (takeWhile (\<lambda>a. alt_Timestamp a + 10 * Minute \<le> now) entries),
      count + length (takeWhile (\<lambda>a. alt_Timestamp a + 10 * Minute \<le> now) entries))"
proof (induction entries arbitrary: d count)
  case Nil
  then show ?case by (simp add: flush_def)
next
  case (Cons a entries)
  show ?case
  proof (cases "now < alt_Timestamp a + 10 * Minute")
    case True
    then show ?thesis by (simp add: flush_def)
  next
    case False
    then have "alt_Timestamp a + 10 * Minute \<le> now" by simp
    with False Cons.IH[of "insertKnown G uuid d a" "count + 1"] show ?thesis
      by (simp add: flush_Cons)
  qed
qed

lemma inserted_flush:
  "\<exists>new. inserted (flush G uuid d entries) = inserted d @ new \<and> subseq new entries"
proof (induction entries arbitrary: d)
  case Nil
  then show ?case by (simp add: flush_def)
next
  case (Cons a entries)
  from Cons.IH[of "insertKnown G uuid d a"] obtain new where
    n: "inserted (flush G uuid (insertKnown G uuid d a) entries)
          = inserted (insertKnown G uuid d a) @ new" "subseq new entries"
    by blast
  show ?case
  proof (cases "ReadNode G (graph d) (alt_Name a)")
    case True
    with n have "inserted (flush G uuid d (a # entries)) = inserted d @ (a # new)"
      by (simp add: flush_Cons insertKnown_def)
    moreover from n have "subseq (a # new) (a # entries)" by simp
    ultimately show ?thesis by blast
  next
    case False
    with n have "inserted (flush G uuid d (a # entries)) = inserted d @ new"
      by (simp add: flush_Cons insertKnown_def)
    moreover from n(2) have "subseq new (a # entries)" by (rule list_emb_Cons)
    ultimately show ?thesis by blast
  qed
qed

lemma graph_flush:
  "graph (flush G uuid d entries) =
     foldl (\<lambda>g a. if ReadNode G g (alt_Name a)
                   then InsertFQDN G g (alt_Name a) (alt_Source a) (alt_Tag a) uuid else g)
       (graph d) entries"
  by (induction entries arbitrary: d) (simp_all add: flush_def insertKnown_def)

lemma insertKnown_pending_update:
  "insertKnown G uuid (d\<lparr>pending := ps\<rparr>) a = (insertKnown G uuid d a)\<lparr>pending := ps\<rparr>"
  by (simp add: insertKnown_def)

lemma flush_pending_update:
  "flush G uuid (d\<lparr>pending := ps\<rparr>) entries = (flush G uuid d entries)\<lparr>pending := ps\<rparr>"
  by (induction entries arbitrary: d) (simp_all add: flush_def insertKnown_pending_update)

lemma tick_flush:
  "tick G uuid now d =
     (flush G uuid d (takeWhile (\<lambda>a. alt_Timestamp a + 10 * Minute \<le> now) (pending d)))
       \<lparr>pending := dropWhile (\<lambda>a. alt_Timestamp a + 10 * Minute \<le> now) (pending d)\<rparr>"
  by (simp add: tick_def scanPending_takeWhile pending_flush dropWhile_eq_drop)

lemma tick_Nil: "pending d = [] \<Longrightarrow> tick G uuid now d = d"
  by (simp add: tick_def)

lemma tick_young:
  "pending d = a # rest \<Longrightarrow> now < alt_Timestamp a + 10 * Minute \<Longrightarrow> tick G uuid now d = d"
  by (simp add: tick_def)

lemma tick_aged:
  assumes "pending d = a # rest" and "\<not> now < alt_Timestamp a + 10 * Minute"
  shows "tick G uuid now d = tick G uuid now ((insertKnown G uuid d a)\<lparr>pending := rest\<rparr>)"
proof -
  from assms have "alt_Timestamp a + 10 * Minute \<le> now" by simp
  with assms(1) show ?thesis
    by (simp add: tick_flush flush_pending_update flush_Cons pending_insertKnown)
qed

text \<open>
  Claim C8. A tick at clock reading \<open>now\<close> handles the longest prefix of \<open>pending\<close>
  whose entries are at least ten minutes old, in arrival order, and leaves the rest,
  whose first entry, if any, is younger than ten minutes. An empty \<open>pending\<close> or a
  young first entry leaves everything as it is. An aged first entry is taken off
  \<open>pending\<close>; when \<open>ReadNode\<close> finds its name in the graph as it then is, the graph
  becomes the result of \<open>InsertFQDN\<close> with the entry's name, source and tag and the
  entry is listed as inserted, otherwise graph and list stay; the tick then goes on
  with the next entry. So the graph after the tick is the fold of that step over the
  aged prefix, as the loop run at shutdown would do on that prefix. Every entry the
  tick passes to \<open>InsertFQDN\<close> is from the prefix, so its timestamp plus ten minutes
  is not after \<open>now\<close>.
\<close>

theorem tick_consumes_aged_prefix:
  "tick G uuid now d =
     (flush G uuid d (takeWhile (\<lambda>a. alt_Timestamp a + 10 * Minute \<le> now) (pending d)))
       \<lparr>pending := dropWhile (\<lambda>a. alt_Timestamp a + 10 * Minute \<le> now) (pending d)\<rparr>
   \<and> graph (tick G uuid now d) =
       foldl (\<lambda>g a. if ReadNode G g (alt_Name a)
                     then InsertFQDN G g (alt_Name a) (alt_Source a) (alt_Tag a) uuid else g)
         (graph d) (takeWhile (\<lambda>a. alt_Timestamp a + 10 * Minute \<le> now) (pending d))
   \<and> (case pending d of
         [] \<Rightarrow> tick G uuid now d = d
       | a # rest \<Rightarrow>
           if now < alt_Timestamp a + 10 * Minute then tick G uuid now d = d
           else if ReadNode G (graph d) (alt_Name a)
           then tick G uuid now d =
                  tick G uuid now
                    (d\<lparr>graph := InsertFQDN G (graph d) (alt_Name a) (alt_Source a) (alt_Tag a) uuid,
                       inserted := inserted d @ [a], pending := rest\<rparr>)
           else tick G uuid now d = tick G uuid now (d\<lparr>pending := rest\<rparr>))
   \<and> (\<exists>new. inserted (tick G uuid now d) = inserted d @ new
         \<and> subseq new (takeWhile (\<lambda>a. alt_Timestamp a + 10 * Minute \<le> now) (pending d))
         \<and> (\<forall>a \<in> set new. alt_Timestamp a + 10 * Minute \<le> now))
   \<and> pending d = takeWhile (\<lambda>a. alt_Timestamp a + 10 * Minute \<le> now) (pending d)
                    @ pending (tick G uuid now d)
   \<and> (pending (tick G uuid now d) \<noteq> [] \<longrightarrow>
        now < alt_Timestamp (hd (pending (tick G uuid now d))) + 10 * Minute)"
proof -
  let ?aged = "\<lambda>a. alt_Timestamp a + 10 * Minute \<le> now"
  let ?d' = "flush G uuid d (takeWhile ?aged (pending d))"
  note t = tick_flush[of G uuid now d]
  have g: "graph (tick G uuid now d) =
       foldl (\<lambda>g a. if ReadNode G g (alt_Name a)
                     then InsertFQDN G g (alt_Name a) (alt_Source a) (alt_Tag a) uuid else g)
         (graph d) (takeWhile ?aged (pending d))"
    by (simp add: t graph_flush)
  have s: "case pending d of
         [] \<Rightarrow> tick G uuid now d = d
       | a # rest \<Rightarrow>
           if now < alt_Timestamp a + 10 * Minute then tick G uuid now d = d
           else if ReadNode G (graph d) (alt_Name a)
           then tick G uuid now d =
                  tick G uuid now
                    (d\<lparr>graph := InsertFQDN G (graph d) (alt_Name a) (alt_Source a) (alt_Tag a) uuid,
                       inserted := inserted d @ [a], pending := rest\<rparr>)
           else tick G uuid now d = tick G uuid now (d\<lparr>pending := rest\<rparr>)"
  proof (cases "pending d")
    case Nil
    then show ?thesis by (simp add: tick_Nil)
  next
    case (Cons a rest)
    show ?thesis
    proof (cases "now < alt_Timestamp a + 10 * Minute")
      case True
      with Cons show ?thesis by (simp add: tick_young)
    next
      case False
      from tick_aged[OF Cons False, of G uuid] Cons False show ?thesis
        by (simp add: insertKnown_def)
    qed
  qed
  from inserted_flush[of G uuid d "takeWhile ?aged (pending d)"] obtain new where
    n: "inserted ?d' = inserted d @ new" "subseq new (takeWhile ?aged (pending d))"
    by blast
  have "\<forall>a \<in> set new. ?aged a"
  proof
    fix a assume "a \<in> set new"
    with n(2) have "a \<in> set (takeWhile ?aged (pending d))"
      by (auto elim: list_emb_set)
    then show "?aged a" by (auto dest: set_takeWhileD)
  qed
  with n t have i: "\<exists>new. inserted (tick G uuid now d) = inserted d @ new
         \<and> subseq new (takeWhile ?aged (pending d)) \<and> (\<forall>a \<in> set new. ?aged a)"
    by auto
  have p: "pending (tick G uuid now d) = dropWhile ?aged (pending d)"
    using t by simp
  have h: "pending (tick G uuid now d) \<noteq> [] \<longrightarrow>
        now < alt_Timestamp (hd (pending (tick G uuid now d))) + 10 * Minute"
  proof
    assume "pending (tick G uuid now d) \<noteq> []"
    with p have "dropWhile ?aged (pending d) \<noteq> []" by simp
    from hd_dropWhile[OF this] p
    show "now < alt_Timestamp (hd (pending (tick G uuid now d))) + 10 * Minute"
      by simp
  qed
  from t g s i p h show ?thesis by simp
qed

theorem tick_consumes_aged_prefix_witness:
  "tick exGraph ''uuid'' (10 * Minute) exDup
     = \<lparr>graph = [(''a.example.com'', ''DNS''), (''a.example.com'', ''Crtsh'')],
        pending = [exAlt ''a.example.com'' (5 * Minute), exAlt ''a.example.com'' 0],
        inserted = [exAlt ''a.example.com'' 0]\<rparr>"
  using tick_consumes_aged_prefix[of exGraph "''uuid''" "10 * Minute" exDup]
  by (simp add: exDup_def exAlt_def exGraph_def flush_def insertKnown_def Minute_def)

section \<open>Properties of fqdnFilter\<close>

lemma Has_mono: "Has loc bits key \<Longrightarrow> bits \<subseteq> bits' \<Longrightarrow> Has loc bits' key"
  by (auto simp: Has_def list_all_iff)

lemma Has_Duplicate: "Has loc (snd (Duplicate loc bits key)) key"
  by (simp add: Has_def Duplicate_def list_all_iff)

lemma checkFilter_filter_mono:
  "\<not> Valid p req \<or> f_count f < filterMaxSize p \<Longrightarrow>
   f_filter f \<subseteq> f_filter (snd (checkFilter p f req))"
  by (auto simp: checkFilter_def Let_def Duplicate_def split: if_splits)

lemma checkFilter_Has_mono:
  "\<not> Valid p req \<or> f_count f < filterMaxSize p \<Longrightarrow> Has loc (f_filter f) key \<Longrightarrow>
   Has loc (f_filter (snd (checkFilter p f req))) key"
  using checkFilter_filter_mono Has_mono by blast

lemma checkFilter_accepted:
  assumes "checkFilter p f req = (Some r, f')"
  shows "r = req" and "Valid p req"
    and "Has (locations p) (f_filter f') (req_Name req @ FormatBool (TrustedTag p (req_Tag req)))"
  using assms
  by (auto simp: checkFilter_def Let_def Duplicate_def Has_def list_all_iff split: if_splits)


lemma checkFilter_rejects_untrusted:
  assumes "Valid p req" "f_count f < filterMaxSize p" "\<not> TrustedTag p (req_Tag req)"
    and "Has (locations p) (f_filter f) (req_Name req @ FormatBool True)"
  shows "checkFilter p f req = (None, f\<lparr>f_queue := f_queue f @ [req]\<rparr>)"
  using assms by (simp add: checkFilter_def Let_def)


lemma checkAll_append:
  "checkAll p f (reqs @ reqs') =
     (fst (checkAll p f reqs) @ fst (checkAll p (snd (checkAll p f reqs)) reqs'),
      snd (checkAll p (snd (checkAll p f reqs)) reqs'))"
  by (induction reqs arbitrary: f) (auto split: prod.splits)

lemma checkAll_Cons:
  "checkAll p f (req # reqs) =
     (fst (checkFilter p f req) # fst (checkAll p (snd (checkFilter p f req)) reqs),
      snd (checkAll p (snd (checkFilter p f req)) reqs))"
  by (simp split: prod.splits)

lemma noReset_append:
  "noReset p f (reqs @ reqs') \<longleftrightarrow> noReset p f reqs \<and> noReset p (snd (checkAll p f reqs)) reqs'"
  by (induction reqs arbitrary: f) (auto split: prod.splits)

lemma noReset_Has:
  "noReset p f reqs \<Longrightarrow> Has loc (f_filter f) key \<Longrightarrow>
   Has loc (f_filter (snd (checkAll p f reqs))) key"
proof (induction reqs arbitrary: f)
  case Nil
  then show ?case by simp
next
  case (Cons req reqs)
  from Cons.prems have a: "\<not> Valid p req \<or> f_count f < filterMaxSize p"
    and b: "noReset p (snd (checkFilter p f req)) reqs" by simp_all
  from checkFilter_Has_mono[OF a Cons.prems(2)] Cons.IH[OF b]
  show ?case by (auto split: prod.splits)
qed



lemmas ex_filter_defs =
  checkFilter_def Let_def Duplicate_def Has_def FormatBool_def NewBloomFilter_def
  exParams_def exFilter_def exTagged_def exLocations_def int64_def

text \<open>
  Claim C3, as the code has it. Once a request with a trusted tag has been accepted,
  every later valid request with the same name and an untrusted tag is dropped and
  appended to the queue of \<open>processDupNames\<close>, as long as no call in between (or its
  own call) finds \<open>count\<close> at \<open>filterMaxSize\<close> and replaces the Bloom filter.
\<close>

theorem trusted_blocks_untrusted:
  assumes "checkFilter p f req = (Some req', f')" and "TrustedTag p (req_Tag req)"
    and "noReset p f' (reqs @ [req2])"
    and "req_Name req2 = req_Name req" and "\<not> TrustedTag p (req_Tag req2)" and "Valid p req2"
  shows "checkFilter p (snd (checkAll p f' reqs)) req2
     = (None, (snd (checkAll p f' reqs))\<lparr>f_queue := f_queue (snd (checkAll p f' reqs)) @ [req2]\<rparr>)"
proof -
  let ?f = "snd (checkAll p f' reqs)"
  from checkFilter_accepted(3)[OF assms(1)] assms(2)
  have "Has (locations p) (f_filter f') (req_Name req @ FormatBool True)" by simp
  moreover from assms(3) have n: "noReset p f' reqs" "noReset p ?f [req2]"
    by (simp_all add: noReset_append)
  ultimately have "Has (locations p) (f_filter ?f) (req_Name req2 @ FormatBool True)"
    using noReset_Has assms(4) by metis
  moreover from n(2) assms(6) have "f_count ?f < filterMaxSize p" by simp
  ultimately show ?thesis using checkFilter_rejects_untrusted assms(5,6) by blast
qed

theorem trusted_blocks_untrusted_witness:
  "fst (checkAll (exParams 100) exFilter
          [exTagged ''a.example.com'' ''cert'', exTagged ''b.example.com'' ''dns'',
           exTagged ''a.example.com'' ''scrape''])
     = [Some (exTagged ''a.example.com'' ''cert''), Some (exTagged ''b.example.com'' ''dns''), None]
   \<and> f_queue (snd (checkAll (exParams 100) exFilter
          [exTagged ''a.example.com'' ''cert'', exTagged ''b.example.com'' ''dns'',
           exTagged ''a.example.com'' ''scrape'']))
     = [exTagged ''a.example.com'' ''scrape'']"
proof -
  let ?p = "exParams 100"
  let ?a = "exTagged ''a.example.com'' ''cert''"
  let ?b = "exTagged ''b.example.com'' ''dns''"
  let ?u = "exTagged ''a.example.com'' ''scrape''"
  let ?f1 = "snd (checkFilter ?p exFilter ?a)"
  let ?f2 = "snd (checkAll ?p ?f1 [?b])"
  have acc1: "fst (checkFilter ?p exFilter ?a) = Some ?a"
    by (simp add: ex_filter_defs)
  then have acc: "checkFilter ?p exFilter ?a = (Some ?a, ?f1)"
    by (metis prod.collapse)
  have h1: "TrustedTag ?p (req_Tag ?a)" by (simp add: exParams_def exTagged_def)
  have h2: "noReset ?p ?f1 ([?b] @ [?u])" by (simp add: ex_filter_defs)
  have h3: "req_Name ?u = req_Name ?a" by (simp add: exTagged_def)
  have h4: "\<not> TrustedTag ?p (req_Tag ?u)" by (simp add: exParams_def exTagged_def)
  have h5: "Valid ?p ?u" by (simp add: exParams_def exTagged_def)
  have q: "f_queue ?f2 = []" "fst (checkAll ?p ?f1 [?b]) = [Some ?b]"
    by (simp_all add: ex_filter_defs)
  from trusted_blocks_untrusted[OF acc h1 h2 h3 h4 h5]
  have "checkFilter ?p ?f2 ?u = (None, ?f2\<lparr>f_queue := f_queue ?f2 @ [?u]\<rparr>)" .
  with q have r: "fst (checkFilter ?p ?f2 ?u) = None" "f_queue (snd (checkFilter ?p ?f2 ?u)) = [?u]"
    by simp_all
  have "checkAll ?p exFilter (?a # [?b] @ [?u])
      = (fst (checkFilter ?p exFilter ?a) # fst (checkAll ?p ?f1 [?b])
           @ [fst (checkFilter ?p ?f2 ?u)],
         snd (checkFilter ?p ?f2 ?u))"
    unfolding checkAll_Cons checkAll_append by (simp split: prod.splits)
  then show ?thesis
    using acc1 q r by (simp del: checkAll.simps)
qed

text \<open>
  Claim C3 as stated fails: with \<open>filterMaxSize = 2\<close>, after two accepted trusted
  names the next call replaces the Bloom filter, and the untrusted request for the
  first name is accepted.
\<close>

theorem trusted_blocks_untrusted_counterexample:
  "fst (checkAll (exParams 2) exFilter
          [exTagged ''a.example.com'' ''cert'', exTagged ''b.example.com'' ''cert'',
           exTagged ''a.example.com'' ''scrape''])
     = [Some (exTagged ''a.example.com'' ''cert''), Some (exTagged ''b.example.com'' ''cert''),
        Some (exTagged ''a.example.com'' ''scrape'')]"
  by (simp add: ex_filter_defs)








end
